theory Spec2Isabelle
  imports Main "HOL-Library.AList"
begin

section \<open>Login rate limiter\<close>

text \<open>
  The server keeps one module-level \<^verbatim>\<open>Map\<close> from identifier to attempt record:
  \<^verbatim>\<open>
  const loginAttempts = new Map<string, { count: number, lockoutUntil?: number, lastAttemptAt?: number }>()
  const MAX_LOGIN_ATTEMPTS = 5
  const LOCKOUT_DURATION = 15 * 60 * 1000
  const ATTEMPT_WINDOW = 15 * 60 * 1000
  \<close>
  A JavaScript \<^verbatim>\<open>Map\<close> iterates in insertion order, and the eviction in
  \<^verbatim>\<open>recordLoginAttempt\<close> depends on that order, so the map is an association list
  in insertion order: \<open>AList.update\<close> overwrites a present key in place and appends an
  absent one (as \<^verbatim>\<open>Map.set\<close> does), \<open>AList.delete\<close> removes a key. The clock
  \<^verbatim>\<open>Date.now()\<close> is the parameter \<open>now\<close>, in milliseconds.
\<close>

record attempt =
  count :: nat
  lockoutUntil :: "int option"
  lastAttemptAt :: "int option"

type_synonym loginAttempts = "(string \<times> attempt) list"

definition MAX_LOGIN_ATTEMPTS :: int where
  "MAX_LOGIN_ATTEMPTS = 5"

definition LOCKOUT_DURATION :: int where
  "LOCKOUT_DURATION = 15 * 60 * 1000"

definition ATTEMPT_WINDOW :: int where
  "ATTEMPT_WINDOW = 15 * 60 * 1000"

text \<open>The value \<^verbatim>\<open>checkRateLimit\<close> returns; \<open>r_lockoutUntil\<close> is the \<^verbatim>\<open>Date\<close>, as milliseconds.\<close>

record rate_limit =
  allowed :: bool
  remainingAttempts :: "int option"
  r_lockoutUntil :: "int option"

text \<open>
  \<^verbatim>\<open>attempt?.lockoutUntil && attempt.lockoutUntil > now\<close>: an absent record, an absent field
  and the number 0 are all falsy. The function returns the active lockout, if there is one.
\<close>

definition activeLockout :: "int \<Rightarrow> attempt option \<Rightarrow> int option" where
  "activeLockout now a =
     (case a of
        None \<Rightarrow> None
      | Some r \<Rightarrow>
          (case lockoutUntil r of
             None \<Rightarrow> None
           | Some l \<Rightarrow> if l \<noteq> 0 \<and> l > now then Some l else None))"

text \<open>\<^verbatim>\<open>attempt?.lastAttemptAt && now - attempt.lastAttemptAt > ATTEMPT_WINDOW\<close>\<close>

definition windowExpired :: "int \<Rightarrow> attempt option \<Rightarrow> bool" where
  "windowExpired now a =
     (case a of
        None \<Rightarrow> False
      | Some r \<Rightarrow>
          (case lastAttemptAt r of
             None \<Rightarrow> False
           | Some t \<Rightarrow> t \<noteq> 0 \<and> now - t > ATTEMPT_WINDOW))"

definition checkRateLimit :: "int \<Rightarrow> string \<Rightarrow> loginAttempts \<Rightarrow> rate_limit \<times> loginAttempts" where
  "checkRateLimit now identifier m =
     (let a = map_of m identifier in
      case activeLockout now a of
        Some l \<Rightarrow>
          (\<lparr>allowed = False, remainingAttempts = None, r_lockoutUntil = Some l\<rparr>, m)
      | None \<Rightarrow>
          if windowExpired now a then
            (\<lparr>allowed = True, remainingAttempts = Some MAX_LOGIN_ATTEMPTS, r_lockoutUntil = None\<rparr>,
             AList.update identifier
               \<lparr>count = 0, lockoutUntil = None, lastAttemptAt = None\<rparr> m)
          else
            (case a of
               None \<Rightarrow>
                 (\<lparr>allowed = True, remainingAttempts = Some MAX_LOGIN_ATTEMPTS,
                   r_lockoutUntil = None\<rparr>, m)
             | Some r \<Rightarrow>
                 if int (count r) \<ge> MAX_LOGIN_ATTEMPTS then
                   (let l = now + LOCKOUT_DURATION in
                    (\<lparr>allowed = False, remainingAttempts = None, r_lockoutUntil = Some l\<rparr>,
                     AList.update identifier
                       \<lparr>count = count r, lockoutUntil = Some l, lastAttemptAt = Some now\<rparr> m))
                 else
                   (\<lparr>allowed = True,
                     remainingAttempts = Some (MAX_LOGIN_ATTEMPTS - int (count r)),
                     r_lockoutUntil = None\<rparr>, m)))"

text \<open>
  \<^verbatim>\<open>entries.slice(0, 100).forEach(([key]) => loginAttempts.delete(key))\<close>: the keys of the
  first hundred entries, in insertion order, are deleted one by one.
\<close>

definition evictOldest :: "loginAttempts \<Rightarrow> loginAttempts" where
  "evictOldest m = fold AList.delete (map fst (take 100 m)) m"

definition recordLoginAttempt :: "int \<Rightarrow> string \<Rightarrow> bool \<Rightarrow> loginAttempts \<Rightarrow> loginAttempts" where
  "recordLoginAttempt now identifier success m =
     (if success then AList.delete identifier m
      else
        (let c = (case map_of m identifier of None \<Rightarrow> 0 | Some r \<Rightarrow> count r) + 1;
             m' = AList.update identifier
                    \<lparr>count = c, lockoutUntil = None, lastAttemptAt = Some now\<rparr> m
         in if length m' > 1000 then evictOldest m' else m'))"

text \<open>A run of failed attempts for one identifier, at the given clock readings, oldest first.\<close>

definition recordFailures :: "int list \<Rightarrow> string \<Rightarrow> loginAttempts \<Rightarrow> loginAttempts" where
  "recordFailures ts identifier m = fold (\<lambda>t. recordLoginAttempt t identifier False) ts m"

text \<open>
  What every reachable map satisfies: keys are unique (it is a \<^verbatim>\<open>Map\<close>) and, between two
  calls, it holds at most 1000 identifiers (the eviction runs as soon as it holds more).
\<close>

definition limiter_inv :: "loginAttempts \<Rightarrow> bool" where
  "limiter_inv m = (distinct (map fst m) \<and> length m \<le> 1000)"

section \<open>Inventory: products, stock history, sales and orders\<close>
















subsection \<open>Validation helpers\<close>









subsection \<open>Audit log\<close>


subsection \<open>Sales: \<^verbatim>\<open>POST /transactions\<close>\<close>



subsection \<open>Manual adjustment: \<^verbatim>\<open>PUT /stock/:productId\<close>\<close>


subsection \<open>Orders: \<^verbatim>\<open>PUT /orders/:id\<close>\<close>








subsection \<open>Sequences of requests\<close>




section \<open>Notions the properties are stated with\<close>
















subsection \<open>A small shop, for the concrete instances\<close>










section \<open>Lemmas about the login attempt map\<close>

lemma update_absent: "k \<notin> fst ` set m \<Longrightarrow> AList.update k v m = m @ [(k, v)]"
  by (induction m) auto

lemma length_update_present: "k \<in> fst ` set m \<Longrightarrow> length (AList.update k v m) = length m"
  by (induction m) auto

lemma evict_drop: "distinct (map fst m) \<Longrightarrow> fold AList.delete (map fst (take n m)) m = drop n m"
proof (induction m arbitrary: n)
  case Nil
  then show ?case by simp
next
  case (Cons p m)
  show ?case
  proof (cases n)
    case 0
    then show ?thesis by simp
  next
    case (Suc k)
    obtain a b where p: "p = (a, b)" by (cases p)
    from Cons.prems p have "a \<notin> fst ` set m" by auto
    then have "AList.delete a m = m" by simp
    with Cons p Suc show ?thesis by simp
  qed
qed

lemma evictOldest_drop: "distinct (map fst m) \<Longrightarrow> evictOldest m = drop 100 m"
  by (simp add: evictOldest_def evict_drop)

text \<open>
  The invariant holds of the empty map the server starts with, and every call of
  \<^verbatim>\<open>recordLoginAttempt\<close> and \<^verbatim>\<open>checkRateLimit\<close> keeps it
  (\<open>record_success_inv\<close>, \<open>record_failure\<close>, \<open>checkRateLimit_inv\<close>).
\<close>

lemma limiter_inv_Nil: "limiter_inv []"
  by (simp add: limiter_inv_def)

lemma record_success_lookup: "map_of (recordLoginAttempt t k True m) k = None"
  by (simp add: recordLoginAttempt_def AList.delete_conv')

lemma record_success_inv: "limiter_inv m \<Longrightarrow> limiter_inv (recordLoginAttempt t k True m)"
  using AList.length_delete_le [of k m]
  by (simp add: recordLoginAttempt_def limiter_inv_def AList.distinct_delete)

lemma record_failure:
  assumes "limiter_inv m"
  shows "map_of (recordLoginAttempt t k False m) k =
           Some \<lparr>count = (case map_of m k of None \<Rightarrow> 0 | Some r \<Rightarrow> count r) + 1,
                 lockoutUntil = None, lastAttemptAt = Some t\<rparr>
         \<and> limiter_inv (recordLoginAttempt t k False m)"
proof -
  let ?v = "\<lparr>count = (case map_of m k of None \<Rightarrow> 0 | Some r \<Rightarrow> count r) + 1,
                 lockoutUntil = None, lastAttemptAt = Some t\<rparr>"
  let ?m' = "AList.update k ?v m"
  from assms have d: "distinct (map fst m)" and l: "length m \<le> 1000"
    by (simp_all add: limiter_inv_def)
  have d': "distinct (map fst ?m')" using d by (rule AList.distinct_update)
  have look: "map_of ?m' k = Some ?v" by (simp add: AList.update_conv')
  show ?thesis
  proof (cases "length ?m' > 1000")
    case False
    then have "recordLoginAttempt t k False m = ?m'"
      by (simp add: recordLoginAttempt_def Let_def)
    with False d' look show ?thesis by (simp add: limiter_inv_def)
  next
    case True
    then have r: "recordLoginAttempt t k False m = drop 100 ?m'"
      using d' by (simp add: recordLoginAttempt_def Let_def evictOldest_drop)
    have notin: "k \<notin> fst ` set m"
    proof
      assume "k \<in> fst ` set m"
      then have "length ?m' = length m" by (rule length_update_present)
      with True l show False by simp
    qed
    then have app: "?m' = m @ [(k, ?v)]" by (rule update_absent)
    have len: "length m = 1000" using True l app by simp
    have dr: "drop 100 ?m' = drop 100 m @ [(k, ?v)]" using app len by simp
    have "k \<notin> fst ` set (drop 100 m)" using notin by (auto dest: in_set_dropD)
    then have "map_of (drop 100 m) k = None" by (simp add: map_of_eq_None_iff)
    then have 1: "map_of (drop 100 ?m') k = Some ?v" by (subst dr) (simp add: map_add_def)
    have 2: "distinct (map fst (drop 100 ?m'))" using d' by (simp add: drop_map [symmetric] distinct_drop del: drop_map)
    have 3: "length (drop 100 ?m') \<le> 1000" using app len by simp
    from 1 2 3 r show ?thesis by (simp add: limiter_inv_def)
  qed
qed

lemma recordFailures_inv: "limiter_inv m \<Longrightarrow> limiter_inv (recordFailures ts k m)"
  unfolding recordFailures_def
  by (induction ts arbitrary: m) (simp_all add: record_failure)

lemma recordFailures_lookup:
  "limiter_inv m \<Longrightarrow> ts \<noteq> [] \<Longrightarrow>
   map_of (recordFailures ts k m) k =
     Some \<lparr>count = (case map_of m k of None \<Rightarrow> 0 | Some r \<Rightarrow> count r) + length ts,
           lockoutUntil = None, lastAttemptAt = Some (last ts)\<rparr>"
  unfolding recordFailures_def
proof (induction ts arbitrary: m)
  case Nil
  then show ?case by simp
next
  case (Cons t ts)
  note rf = record_failure [OF Cons.prems(1), of t k]
  show ?case
  proof (cases "ts = []")
    case True
    with rf show ?thesis by simp
  next
    case False
    with Cons.IH [of "recordLoginAttempt t k False m"] rf show ?thesis by simp
  qed
qed

lemma check_locks:
  assumes "map_of m k = Some r" "lockoutUntil r = None" "lastAttemptAt r = Some t"
    "now - t \<le> ATTEMPT_WINDOW" "5 \<le> count r"
  shows "checkRateLimit now k m =
           (\<lparr>allowed = False, remainingAttempts = None,
             r_lockoutUntil = Some (now + 15 * 60 * 1000)\<rparr>,
            AList.update k
              \<lparr>count = count r, lockoutUntil = Some (now + 15 * 60 * 1000),
               lastAttemptAt = Some now\<rparr> m)"
  using assms
  by (simp add: checkRateLimit_def activeLockout_def windowExpired_def Let_def
      MAX_LOGIN_ATTEMPTS_def LOCKOUT_DURATION_def)

lemma checkRateLimit_inv: "limiter_inv m \<Longrightarrow> limiter_inv (snd (checkRateLimit now k m))"
proof -
  assume inv: "limiter_inv m"
  have keep: "limiter_inv (AList.update k v m)" if "map_of m k = Some r" for v r
  proof -
    from that have "k \<in> fst ` set m" by (auto dest: map_of_SomeD intro: rev_image_eqI)
    then have "length (AList.update k v m) = length m" by (rule length_update_present)
    with inv show ?thesis by (simp add: limiter_inv_def AList.distinct_update)
  qed
  show ?thesis
  proof (cases "map_of m k")
    case None
    with inv show ?thesis
      by (simp add: checkRateLimit_def activeLockout_def windowExpired_def)
  next
    case (Some r)
    from keep [OF Some] inv Some show ?thesis
      by (simp add: checkRateLimit_def Let_def split: option.splits)
  qed
qed

lemma check_allows:
  assumes "map_of m k = None \<or> (\<exists>r. map_of m k = Some r \<and> lockoutUntil r = None \<and> count r < 5)"
  shows "allowed (fst (checkRateLimit now k m))"
  using assms
  by (auto simp add: checkRateLimit_def activeLockout_def windowExpired_def Let_def
      MAX_LOGIN_ATTEMPTS_def split: option.splits)

section \<open>Lemmas about the two stock loops\<close>











section \<open>Lemmas about the handlers\<close>

















subsection \<open>What a sale writes\<close>












subsection \<open>What an order update writes\<close>



















subsection \<open>The small shop\<close>




section \<open>The rate limiter's properties\<close>

text \<open>
  Claim C6, as the code has it. From any limiter state the server can be in, five
  consecutive failed attempts for an identifier leave its record without a lockout; a
  check that follows no later than 15 minutes after the fifth failure is refused, and
  returns and stores a lockout until the time of that check plus 15 minutes. One successful attempt deletes
  the identifier's record, after which a check that follows fewer than five new failures
  is allowed, and five new failures followed by a check within the window lock again.
\<close>

theorem rate_limiter_lockout:
  assumes "limiter_inv m"
  shows "(length ts = 5 \<and> now - last ts \<le> ATTEMPT_WINDOW \<longrightarrow>
            map_of (recordFailures ts identifier m) identifier =
              Some \<lparr>count = (case map_of m identifier of None \<Rightarrow> 0 | Some r \<Rightarrow> count r) + 5,
                    lockoutUntil = None, lastAttemptAt = Some (last ts)\<rparr>
          \<and> fst (checkRateLimit now identifier (recordFailures ts identifier m)) =
              \<lparr>allowed = False, remainingAttempts = None,
               r_lockoutUntil = Some (now + 15 * 60 * 1000)\<rparr>
          \<and> map_of (snd (checkRateLimit now identifier (recordFailures ts identifier m)))
                identifier =
              Some \<lparr>count = (case map_of m identifier of None \<Rightarrow> 0 | Some r \<Rightarrow> count r) + 5,
                    lockoutUntil = Some (now + 15 * 60 * 1000), lastAttemptAt = Some now\<rparr>)
       \<and> map_of (recordLoginAttempt t identifier True m) identifier = None
       \<and> (length ts' < 5 \<longrightarrow>
            allowed (fst (checkRateLimit now' identifier
              (recordFailures ts' identifier (recordLoginAttempt t identifier True m)))))
       \<and> (length ts' = 5 \<and> now' - last ts' \<le> ATTEMPT_WINDOW \<longrightarrow>
            fst (checkRateLimit now' identifier
              (recordFailures ts' identifier (recordLoginAttempt t identifier True m))) =
              \<lparr>allowed = False, remainingAttempts = None,
               r_lockoutUntil = Some (now' + 15 * 60 * 1000)\<rparr>)"
proof -
  have five: "fst (checkRateLimit n identifier (recordFailures us identifier m0)) =
              \<lparr>allowed = False, remainingAttempts = None,
               r_lockoutUntil = Some (n + 15 * 60 * 1000)\<rparr>
            \<and> map_of (recordFailures us identifier m0) identifier =
              Some \<lparr>count = (case map_of m0 identifier of None \<Rightarrow> 0 | Some r \<Rightarrow> count r) + 5,
                    lockoutUntil = None, lastAttemptAt = Some (last us)\<rparr>
            \<and> map_of (snd (checkRateLimit n identifier (recordFailures us identifier m0)))
                  identifier =
              Some \<lparr>count = (case map_of m0 identifier of None \<Rightarrow> 0 | Some r \<Rightarrow> count r) + 5,
                    lockoutUntil = Some (n + 15 * 60 * 1000), lastAttemptAt = Some n\<rparr>"
    if "limiter_inv m0" "length us = 5" "n - last us \<le> ATTEMPT_WINDOW" for n us m0
  proof -
    from that(2) have ne: "us \<noteq> []" by auto
    note lk = recordFailures_lookup [OF that(1) ne, of "identifier"]
    show ?thesis
      using that(2,3) by (simp add: check_locks [OF lk] lk AList.update_conv')
  qed
  let ?m1 = "recordLoginAttempt t identifier True m"
  have inv1: "limiter_inv ?m1" using assms by (rule record_success_inv)
  have gone: "map_of ?m1 identifier = None" by (rule record_success_lookup)
  have few: "allowed (fst (checkRateLimit now' identifier (recordFailures ts' identifier ?m1)))"
    if "length ts' < 5"
  proof (cases "ts' = []")
    case True
    then show ?thesis using gone by (simp add: recordFailures_def check_allows)
  next
    case False
    note lk = recordFailures_lookup [OF inv1 False, of "identifier"]
    show ?thesis
      by (rule check_allows) (use lk gone that in simp)
  qed
  show ?thesis
    using five [OF assms] five [OF inv1] gone few by blast
qed

theorem rate_limiter_lockout_witness:
  "limiter_inv []
   \<and> fst (checkRateLimit 6000 ''a@b.c''
          (recordFailures [1000, 2000, 3000, 4000, 5000] ''a@b.c'' [])) =
       \<lparr>allowed = False, remainingAttempts = None, r_lockoutUntil = Some 906000\<rparr>
   \<and> allowed (fst (checkRateLimit 9000 ''a@b.c''
       (recordFailures [7000, 8000] ''a@b.c'' (recordLoginAttempt 6000 ''a@b.c'' True []))))
   \<and> fst (checkRateLimit 9000 ''a@b.c''
          (recordFailures [7000, 7100, 7200, 7300, 7400] ''a@b.c''
             (recordLoginAttempt 6000 ''a@b.c'' True []))) =
       \<lparr>allowed = False, remainingAttempts = None, r_lockoutUntil = Some 909000\<rparr>"
  using
    rate_limiter_lockout [OF limiter_inv_Nil,
      of "[1000, 2000, 3000, 4000, 5000]" 6000 "''a@b.c''" 6000 "[7000, 8000]" 9000]
    rate_limiter_lockout [OF limiter_inv_Nil,
      of "[1000, 2000, 3000, 4000, 5000]" 6000 "''a@b.c''" 6000
         "[7000, 7100, 7200, 7300, 7400]" 9000]
  by (simp add: ATTEMPT_WINDOW_def limiter_inv_Nil)

text \<open>
  Claim C6 as stated does not hold for every check that follows the five failures: a
  check made more than 15 minutes after the fifth failure (here failures at 1 to 5
  seconds, the check at 1000 seconds) falls under the window expiry and is allowed.
\<close>

theorem rate_limiter_lockout_counterexample:
  "allowed (fst (checkRateLimit 1000000 ''a@b.c''
      (recordFailures [1000, 2000, 3000, 4000, 5000] ''a@b.c'' []))) = True"
  by (simp add: recordFailures_def recordLoginAttempt_def checkRateLimit_def activeLockout_def
      windowExpired_def ATTEMPT_WINDOW_def MAX_LOGIN_ATTEMPTS_def Let_def)

text \<open>
  Claim C9. An identifier has a record with a last attempt at time \<open>t\<close> (a clock reading,
  hence positive) and no active lockout. A check made more than 15 minutes after \<open>t\<close>
  answers \<open>allowed = true\<close> with all 5 attempts remaining, and overwrites the record with
  a failure count of 0.
\<close>

theorem window_expiry_forgiveness:
  assumes "map_of m identifier = Some r" and "activeLockout now (Some r) = None"
    and "lastAttemptAt r = Some t" and "0 < t" and "now - t > ATTEMPT_WINDOW"
  shows "checkRateLimit now identifier m =
           (\<lparr>allowed = True, remainingAttempts = Some MAX_LOGIN_ATTEMPTS, r_lockoutUntil = None\<rparr>,
            AList.update identifier \<lparr>count = 0, lockoutUntil = None, lastAttemptAt = None\<rparr> m)
         \<and> map_of (snd (checkRateLimit now identifier m)) identifier =
             Some \<lparr>count = 0, lockoutUntil = None, lastAttemptAt = None\<rparr>
         \<and> MAX_LOGIN_ATTEMPTS = 5"
  using assms
  by (simp add: checkRateLimit_def windowExpired_def Let_def AList.update_conv' MAX_LOGIN_ATTEMPTS_def)

theorem window_expiry_forgiveness_witness:
  "map_of (recordFailures [1000, 2000, 3000] ''a@b.c'' []) ''a@b.c'' =
     Some \<lparr>count = 3, lockoutUntil = None, lastAttemptAt = Some 3000\<rparr>
   \<and> fst (checkRateLimit 903001 ''a@b.c'' (recordFailures [1000, 2000, 3000] ''a@b.c'' [])) =
       \<lparr>allowed = True, remainingAttempts = Some 5, r_lockoutUntil = None\<rparr>
   \<and> map_of (snd (checkRateLimit 903001 ''a@b.c''
        (recordFailures [1000, 2000, 3000] ''a@b.c'' []))) ''a@b.c'' =
       Some \<lparr>count = 0, lockoutUntil = None, lastAttemptAt = None\<rparr>"
proof -
  have m: "map_of (recordFailures [1000, 2000, 3000] ''a@b.c'' []) ''a@b.c'' =
     Some \<lparr>count = 3, lockoutUntil = None, lastAttemptAt = Some 3000\<rparr>"
    by (simp add: recordFailures_def recordLoginAttempt_def Let_def)
  have a: "activeLockout 903001 (Some \<lparr>count = 3, lockoutUntil = None, lastAttemptAt = Some 3000\<rparr>) = None"
    by (simp add: activeLockout_def)
  have t: "lastAttemptAt \<lparr>count = 3, lockoutUntil = None, lastAttemptAt = Some 3000\<rparr> = Some 3000"
    by simp
  have w: "903001 - 3000 > ATTEMPT_WINDOW"
    by (simp add: ATTEMPT_WINDOW_def)
  show ?thesis
    using window_expiry_forgiveness [OF m a t _ w] m
    by (simp add: MAX_LOGIN_ATTEMPTS_def AList.update_conv')
qed

section \<open>Stock properties\<close>






section \<open>Sales properties\<close>





section \<open>Order properties\<close>













end
